theory Spec2Isabelle
  imports Complex_Main
begin

section \<open>Arrays, errors and slices\<close>

text \<open>
  The program \<^verbatim>\<open>despac_warrant_mc.py\<close> values a warrant by Monte Carlo simulation on
  numpy arrays. A two-dimensional array (paths by time steps) is a list of rows, one row per
  path. Every array statement of the source assigns one column for all paths at once and
  no row ever reads another row, so a column statement is modelled by what it does to one
  row, mapped over the rows. Array entries are float64 in the source and real numbers
  here: rounding, overflow and underflow of floating-point arithmetic are outside the model.

  The errors are the Python exceptions the source can end in.
\<close>

type_synonym matrix = "real list list"

datatype error = ValueError | IndexError | UnboundLocalError

text \<open>The argument of \<^verbatim>\<open>DCF\<close>: a 1-D array, or a 2-D array with its column count
  (\<^verbatim>\<open>shape[1]\<close>) and its rows.\<close>

datatype ndarray = Arr1 "real list" | Arr2 nat matrix

text \<open>\<^verbatim>\<open>xs[a:b]\<close> for \<open>0 \<le> a\<close> and \<open>b \<le> len(xs)\<close>.\<close>

definition slice :: "nat \<Rightarrow> nat \<Rightarrow> 'a list \<Rightarrow> 'a list" where
  "slice a b xs = take (b - a) (drop a xs)"

text \<open>\<^verbatim>\<open>row[k:] = 0\<close>; an empty slice when \<open>k\<close> is past the end, as in numpy.\<close>

definition zero_from :: "nat \<Rightarrow> real list \<Rightarrow> real list" where
  "zero_from k row = take k row @ replicate (length row - k) 0"

section \<open>The discounted cash flow helper\<close>

text \<open>
  \<^verbatim>\<open>dcf_out[:,t] = disc_factor * dcf_out[:,t+1] + cf_in[:,t-1]\<close>, on one row.
\<close>

definition DCF_step :: "real \<Rightarrow> real list \<Rightarrow> nat \<Rightarrow> real list \<Rightarrow> real list" where
  "DCF_step disc_factor cf_in t dcf_out =
     dcf_out[t := disc_factor * dcf_out ! (t + 1) + cf_in ! (t - 1)]"

text \<open>
  The branch \<^verbatim>\<open>cf_in.shape[1] > 1\<close> on one row of \<open>k\<close> columns: the last column is
  initialised, \<^verbatim>\<open>range(k-2, 0, -1)\<close> runs over \<open>k-2, \<dots>, 1\<close>, column 0 is one more
  discounting, and column 0 is returned.
\<close>

definition DCF_row :: "nat \<Rightarrow> real list \<Rightarrow> real \<Rightarrow> real" where
  "DCF_row k cf_in disc_factor =
     (let dcf_out = replicate k 0;
          dcf_out = dcf_out[k - 1 := disc_factor * cf_in ! (k - 1) + cf_in ! (k - 2)];
          dcf_out = (if k > 2 then fold (DCF_step disc_factor cf_in) (rev [1..<k - 1]) dcf_out
                     else dcf_out);
          dcf_out = dcf_out[0 := disc_factor * dcf_out ! 1]
      in dcf_out ! 0)"

text \<open>
  With one column the output is \<^verbatim>\<open>disc_factor * cf_in\<close>; with no column the final
  \<^verbatim>\<open>dcf_out[:,0]\<close> raises IndexError.
\<close>

definition DCF2 :: "nat \<Rightarrow> matrix \<Rightarrow> real \<Rightarrow> error + real list" where
  "DCF2 k cf_in disc_factor =
     (if k > 1 then Inr (map (\<lambda>row. DCF_row k row disc_factor) cf_in)
      else if k = 0 then Inl IndexError
      else Inr (map (\<lambda>row. disc_factor * row ! 0) cf_in))"

fun DCF :: "ndarray \<Rightarrow> real \<Rightarrow> error + real list" where
  "DCF (Arr1 xs) disc_factor = DCF2 1 (map (\<lambda>x. [x]) xs) disc_factor"
| "DCF (Arr2 k cf_in) disc_factor = DCF2 k cf_in disc_factor"

section \<open>The hard-coded inputs of the pricing function\<close>

definition X :: real where "X = 23 / 2"
definition lockout :: nat where "lockout = 0"
definition r :: real where "r = 1 / 20"
definition N :: nat where "N = 100000"
definition dt :: real where "dt = 1 / 252"
definition window :: nat where "window = 30"

text \<open>Python's \<^verbatim>\<open>int(x)\<close> on a float truncates toward zero.\<close>

definition py_int :: "real \<Rightarrow> int" where
  "py_int x = (if 0 \<le> x then \<lfloor>x\<rfloor> else \<lceil>x\<rceil>)"

definition steps_of :: "real \<Rightarrow> int" where
  "steps_of T = py_int (T / dt)"

section \<open>Path simulation\<close>

text \<open>
  The table \<open>z\<close> stands for \<^verbatim>\<open>np.random.normal(size=(int(N/2),steps))\<close> after
  \<^verbatim>\<open>np.random.seed(1234)\<close>: \<open>z i t\<close> is its entry in row \<open>i\<close>, column \<open>t\<close>. The
  generator is not part of the source, so the table is a parameter.
  \<^verbatim>\<open>np.concatenate((draws, -draws))\<close> puts the negated table below it.
\<close>

definition draws :: "(nat \<Rightarrow> nat \<Rightarrow> real) \<Rightarrow> nat \<Rightarrow> nat \<Rightarrow> real" where
  "draws z i t = (if i < N div 2 then z i t else - z (i - N div 2) t)"

text \<open>\<^verbatim>\<open>S[:,t] = S[:,t-1]*np.exp(drift + vol_step*draws[:,t-1])\<close>, on one row.\<close>

definition GBM_step :: "real \<Rightarrow> real \<Rightarrow> (nat \<Rightarrow> real) \<Rightarrow> nat \<Rightarrow> real list \<Rightarrow> real list" where
  "GBM_step drift vol_step dr t s = s[t := s ! (t - 1) * exp (drift + vol_step * dr (t - 1))]"

definition GBM_row :: "real \<Rightarrow> real \<Rightarrow> real \<Rightarrow> (nat \<Rightarrow> real) \<Rightarrow> nat \<Rightarrow> real list" where
  "GBM_row S0 drift vol_step dr steps =
     fold (GBM_step drift vol_step dr) [1..<steps + 1] ((replicate (steps + 1) 0)[0 := S0])"

definition simulate_paths :: "(nat \<Rightarrow> nat \<Rightarrow> real) \<Rightarrow> real \<Rightarrow> nat \<Rightarrow> real \<Rightarrow> matrix" where
  "simulate_paths z S0 steps vol =
     (let drift = (r - vol ^ 2 / 2) * dt;
          vol_step = vol * sqrt dt
      in map (\<lambda>i. GBM_row S0 drift vol_step (draws z i) steps) [0..<N])"

section \<open>Barrier counts and forced redemption\<close>

text \<open>\<^verbatim>\<open>np.sum(xs >= 18)\<close> on one row; the count is stored in a float array.\<close>

definition count18 :: "real list \<Rightarrow> real" where
  "count18 xs = real (length (filter (\<lambda>x. 18 \<le> x) xs))"

text \<open>
  One iteration of the counting loop on one row. The source fixes \<^verbatim>\<open>lockout = 0\<close>; the
  loop is written for any lockout, which is the parameter \<open>lk\<close> here.
\<close>

definition B18_step :: "nat \<Rightarrow> real list \<Rightarrow> nat \<Rightarrow> real list \<Rightarrow> real list" where
  "B18_step lk s t b =
     (if t > lk then
        (if t - lk < 29 then b[t := count18 (slice lk (t + 1) s)]
         else b[t := count18 (slice (t + 1 - window) (t + 1) s)])
      else b)"

definition B18_row :: "nat \<Rightarrow> nat \<Rightarrow> real list \<Rightarrow> real list" where
  "B18_row lk steps s = fold (B18_step lk s) [1..<steps + 1] (replicate (steps + 1) 0)"

definition barrier_counts :: "nat \<Rightarrow> nat \<Rightarrow> matrix \<Rightarrow> matrix" where
  "barrier_counts lk steps S = map (B18_row lk steps) S"

text \<open>The same loop with the ramp-up test \<^verbatim>\<open>t - lockout < 30\<close>.\<close>

definition B18_step_lt30 :: "nat \<Rightarrow> real list \<Rightarrow> nat \<Rightarrow> real list \<Rightarrow> real list" where
  "B18_step_lt30 lk s t b =
     (if t > lk then
        (if t - lk < 30 then b[t := count18 (slice lk (t + 1) s)]
         else b[t := count18 (slice (t + 1 - window) (t + 1) s)])
      else b)"

definition B18_row_lt30 :: "nat \<Rightarrow> nat \<Rightarrow> real list \<Rightarrow> real list" where
  "B18_row_lt30 lk steps s =
     fold (B18_step_lt30 lk s) [1..<steps + 1] (replicate (steps + 1) 0)"

definition barrier_counts_lt30 :: "nat \<Rightarrow> nat \<Rightarrow> matrix \<Rightarrow> matrix" where
  "barrier_counts_lt30 lk steps S = map (B18_row_lt30 lk steps) S"

text \<open>
  \<^verbatim>\<open>for t in range(0,steps-1): S[B18[:,t]>=20.0,t+22:] = 0\<close>, on one row with its row
  of counts.
\<close>

definition redeem_step :: "real list \<Rightarrow> nat \<Rightarrow> real list \<Rightarrow> real list" where
  "redeem_step b t s = (if 20 \<le> b ! t then zero_from (t + 22) s else s)"

definition redeem_row :: "nat \<Rightarrow> real list \<Rightarrow> real list \<Rightarrow> real list" where
  "redeem_row steps b s = fold (redeem_step b) [0..<steps - 1] s"

definition redeem :: "nat \<Rightarrow> matrix \<Rightarrow> matrix \<Rightarrow> matrix" where
  "redeem steps B18 S = map2 (redeem_row steps) B18 S"

text \<open>The price matrix as the exercise stage reads it.\<close>

definition tracked_prices :: "(nat \<Rightarrow> nat \<Rightarrow> real) \<Rightarrow> real \<Rightarrow> nat \<Rightarrow> real \<Rightarrow> matrix" where
  "tracked_prices z S0 steps vol =
     (let S = simulate_paths z S0 steps vol;
          B18 = barrier_counts lockout steps S
      in redeem steps B18 S)"

section \<open>Exercise, valuation and the pricing function\<close>

text \<open>
  A path carries its row of \<^verbatim>\<open>W\<close> and its row of \<^verbatim>\<open>SR\<close> as a pair. Initialisation
  exercises at maturity on the paths in the money.
\<close>

definition init_row :: "nat \<Rightarrow> real list \<Rightarrow> real list \<times> real list" where
  "init_row steps s =
     ((replicate (steps + 1) 0)[steps := max (s ! steps - X) 0],
      (replicate (steps + 1) 0)[steps := (if s ! steps > X then 1 else 0)])"

text \<open>The body of the branch \<^verbatim>\<open>t > lockout\<close> of the backward loop, on one path.\<close>

definition exercise_row ::
  "nat \<Rightarrow> real list \<Rightarrow> real list \<times> real list \<Rightarrow> real list \<times> real list" where
  "exercise_row t s wsr =
     (let stop_rule = (if s ! t > X \<and> s ! (t + 1) = 0 then 1 else 0);
          exercise_payoff = max (s ! t - X) 0;
          cash_flow = stop_rule * exercise_payoff;
          w = (fst wsr)[t := cash_flow];
          sr = (snd wsr)[t := stop_rule]
      in if sr ! t = 1 then (zero_from (t + 1) w, zero_from (t + 1) sr) else (w, sr))"

definition exercise_step ::
  "nat \<Rightarrow> nat \<Rightarrow> matrix \<Rightarrow> (real list \<times> real list) list \<Rightarrow> (real list \<times> real list) list" where
  "exercise_step lk t S WSR = (if t > lk then map2 (exercise_row t) S WSR else WSR)"

text \<open>\<^verbatim>\<open>mean()\<close> and \<^verbatim>\<open>std()\<close> of numpy (the latter with its default \<^verbatim>\<open>ddof=0\<close>).\<close>

definition mean :: "real list \<Rightarrow> real" where
  "mean xs = sum_list xs / real (length xs)"

definition std :: "real list \<Rightarrow> real" where
  "std xs = sqrt (mean (map (\<lambda>x. \<bar>x - mean xs\<bar> ^ 2) xs))"

text \<open>
  Lines 127 to 131: \<^verbatim>\<open>DCF(W[:,1:], disc)\<close>, then the mean and the standard error.
  \<^verbatim>\<open>W[:,1:]\<close> has \<open>steps\<close> columns.
\<close>

definition valuation ::
  "(real list \<times> real list) list \<Rightarrow> nat \<Rightarrow> real \<Rightarrow> error + real \<times> real" where
  "valuation WSR steps disc =
     (case DCF (Arr2 steps (map (\<lambda>wsr. tl (fst wsr)) WSR)) disc of
        Inl e \<Rightarrow> Inl e
      | Inr path_values \<Rightarrow>
          Inr (mean path_values, std path_values / sqrt (real (length path_values))))"

text \<open>
  The backward loop over \<^verbatim>\<open>range(steps-1, 0, -1)\<close>. Its body ends with the valuation,
  which assigns \<^verbatim>\<open>w_prc\<close> and \<^verbatim>\<open>se\<close>; before the first iteration they are unassigned,
  which is \<open>None\<close>.
\<close>

fun backward_loop ::
  "nat \<Rightarrow> matrix \<Rightarrow> nat \<Rightarrow> real \<Rightarrow> nat list \<Rightarrow>
   (real list \<times> real list) list \<times> (real \<times> real) option \<Rightarrow>
   error + (real list \<times> real list) list \<times> (real \<times> real) option" where
  "backward_loop lk S steps disc [] st = Inr st"
| "backward_loop lk S steps disc (t # ts) st =
     (let WSR = exercise_step lk t S (fst st) in
      case valuation WSR steps disc of
        Inl e \<Rightarrow> Inl e
      | Inr res \<Rightarrow> backward_loop lk S steps disc ts (WSR, Some res))"

text \<open>
  The pricing function. A negative column count makes \<^verbatim>\<open>np.zeros\<close> raise ValueError;
  with no column \<^verbatim>\<open>S[:,0] = S0\<close> raises IndexError; returning \<^verbatim>\<open>w_prc, se\<close> while
  they are unassigned raises UnboundLocalError.
\<close>

definition price_warrant ::
  "(nat \<Rightarrow> nat \<Rightarrow> real) \<Rightarrow> real \<Rightarrow> real \<Rightarrow> real \<Rightarrow> error + real \<times> real" where
  "price_warrant z S0 T vol =
     (let steps = steps_of T;
          disc = exp (- r * dt)
      in if steps + 1 < 0 then Inl ValueError
         else if steps + 1 = 0 then Inl IndexError
         else
           (let n = nat steps;
                S = tracked_prices z S0 n vol;
                WSR = map (init_row n) S
            in case backward_loop lockout S n disc (rev [1..<n]) (WSR, None) of
                 Inl e \<Rightarrow> Inl e
               | Inr st \<Rightarrow>
                   (case snd st of
                      None \<Rightarrow> Inl UnboundLocalError
                    | Some res \<Rightarrow> Inr res)))"

text \<open>
  The variant that runs the backward loop without the valuation and values once, after the
  loop has completed.
\<close>

definition exercise_loop ::
  "nat \<Rightarrow> matrix \<Rightarrow> nat list \<Rightarrow> (real list \<times> real list) list \<Rightarrow> (real list \<times> real list) list" where
  "exercise_loop lk S ts WSR = fold (\<lambda>t. exercise_step lk t S) ts WSR"

definition price_warrant_once ::
  "(nat \<Rightarrow> nat \<Rightarrow> real) \<Rightarrow> real \<Rightarrow> real \<Rightarrow> real \<Rightarrow> error + real \<times> real" where
  "price_warrant_once z S0 T vol =
     (let steps = steps_of T;
          disc = exp (- r * dt)
      in if steps + 1 < 0 then Inl ValueError
         else if steps + 1 = 0 then Inl IndexError
         else
           (let n = nat steps;
                S = tracked_prices z S0 n vol;
                WSR = map (init_row n) S
            in valuation (exercise_loop lockout S (rev [1..<n]) WSR) n disc))"

section \<open>Definitions used to state the properties\<close>

text \<open>The present value of a row of cash flows, the first one a step ahead:
  \<open>x\<^sub>0 + d (x\<^sub>1 + d (x\<^sub>2 + \<dots>))\<close>.\<close>

fun horner :: "real \<Rightarrow> real list \<Rightarrow> real" where
  "horner d [] = 0"
| "horner d (x # xs) = x + d * horner d xs"

text \<open>
  The backward recursion in the words of the specification, for a row \<open>cf(1..n)\<close> (the list
  entry \<open>cf ! (t - 1)\<close> is \<open>cf(t)\<close>) and a table \<open>PV\<close> of accumulated values:
  \<open>PV(n) = d\<cdot>cf(n) + cf(n-1)\<close>, \<open>PV(t) = d\<cdot>PV(t+1) + cf(t-1)\<close> for \<open>t\<close> from \<open>n-1\<close>
  down to \<open>2\<close>, and finally \<open>PV(0) = d\<cdot>PV(1)\<close>, which discounts the last accumulated
  value back to time 0 with no step-1 cash flow added: \<open>PV(1)\<close> is the last accumulated
  value, the one the equations before it leave at index 2.
\<close>

definition spec_recursion :: "real list \<Rightarrow> real \<Rightarrow> (nat \<Rightarrow> real) \<Rightarrow> bool" where
  "spec_recursion cf d PV \<longleftrightarrow>
     (let n = length cf in
        PV n = d * cf ! (n - 1) + cf ! (n - 2) \<and>
        (\<forall>t \<in> {2..n - 1}. PV t = d * PV (t + 1) + cf ! (t - 2)) \<and>
        PV 1 = PV 2 \<and>
        PV 0 = d * PV 1)"

text \<open>The table of values that solves this recursion for a row.\<close>

definition PV_of :: "real list \<Rightarrow> real \<Rightarrow> nat \<Rightarrow> real" where
  "PV_of cf d t = (if t = 0 then d * horner d cf else horner d (drop (t - 2) cf))"

text \<open>The table for the row \<open>[5, 0, 10]\<close> and \<open>d = 0.99\<close>.\<close>

definition PV_example :: "nat \<Rightarrow> real" where
  "PV_example t = (if t = 3 then 99 / 10 else if t = 2 \<or> t = 1 then 14801 / 1000
                   else if t = 0 then 1465299 / 100000 else 0)"

text \<open>
  The count the counting loop writes into column \<open>t\<close> of a row: the prices at or above 18
  among the \<open>min(30, t - lk + 1)\<close> columns that end with column \<open>t\<close>.
\<close>

definition B18_val :: "nat \<Rightarrow> real list \<Rightarrow> nat \<Rightarrow> real" where
  "B18_val lk s t = count18 (slice (t + 1 - min 30 (t - lk + 1)) (t + 1) s)"

text \<open>
  The count in the words of the specification: over a trailing window of exactly
  \<open>min(30, t - lockout)\<close> steps ending at step \<open>t\<close>.
\<close>

definition window_claimed :: "nat \<Rightarrow> real list \<Rightarrow> nat \<Rightarrow> real" where
  "window_claimed lk s t = count18 (slice (t + 1 - min 30 (t - lk)) (t + 1) s)"

text \<open>The price the simulation loop leaves in column \<open>t\<close> of a path.\<close>

fun gbm_val :: "real \<Rightarrow> real \<Rightarrow> real \<Rightarrow> (nat \<Rightarrow> real) \<Rightarrow> nat \<Rightarrow> real" where
  "gbm_val S0 drift vol_step dr 0 = S0"
| "gbm_val S0 drift vol_step dr (Suc t) =
     gbm_val S0 drift vol_step dr t * exp (drift + vol_step * dr t)"

text \<open>The first column the redemption loop has zeroed, after it ran over the steps
  \<open>ts\<close> from a row zeroed from column \<open>c\<close> on.\<close>

definition redeem_cut :: "real list \<Rightarrow> nat list \<Rightarrow> nat \<Rightarrow> nat" where
  "redeem_cut b ts c = fold (\<lambda>t c. if 20 \<le> b ! t then min (t + 22) c else c) ts c"

text \<open>Counting and redemption on one path.\<close>

definition tracked_row :: "nat \<Rightarrow> real list \<Rightarrow> real list" where
  "tracked_row n s = redeem_row n (B18_row lockout n s) s"

text \<open>A table of draws that are all zero.\<close>

definition no_shock :: "nat \<Rightarrow> nat \<Rightarrow> real" where
  "no_shock i t = 0"

text \<open>The body of the backward loop on one path, with its guard, and the loop on one path.\<close>

definition exercise_row_step ::
  "nat \<Rightarrow> nat \<Rightarrow> real list \<Rightarrow> real list \<times> real list \<Rightarrow> real list \<times> real list" where
  "exercise_row_step lk t s wsr = (if t > lk then exercise_row t s wsr else wsr)"

definition exercise_row_loop ::
  "nat \<Rightarrow> real list \<Rightarrow> nat list \<Rightarrow> real list \<times> real list \<Rightarrow> real list \<times> real list" where
  "exercise_row_loop lk s ts wsr = fold (\<lambda>t. exercise_row_step lk t s) ts wsr"

text \<open>A row of \<open>n + 1\<close> zeros, and the shape of a row of the stop rule: all zero, or zero but
  for a single 1 at a column from \<open>j\<close> on.\<close>

definition zero_row :: "nat \<Rightarrow> real list" where
  "zero_row n = replicate (n + 1) 0"

definition one_stop :: "nat \<Rightarrow> nat \<Rightarrow> real list \<Rightarrow> bool" where
  "one_stop n j sr \<longleftrightarrow>
     sr = zero_row n \<or> (\<exists>k. j \<le> k \<and> k \<le> n \<and> sr = (zero_row n)[k := 1])"

text \<open>What \<^verbatim>\<open>DCF(W[:,1:], disc)\<close> returns when it returns, and the pair made of it.\<close>

definition path_values :: "(real list \<times> real list) list \<Rightarrow> nat \<Rightarrow> real \<Rightarrow> real list" where
  "path_values WSR n d =
     (if n > 1 then map (\<lambda>wsr. DCF_row n (tl (fst wsr)) d) WSR
      else map (\<lambda>wsr. d * tl (fst wsr) ! 0) WSR)"

definition stats :: "real list \<Rightarrow> real \<times> real" where
  "stats pv = (mean pv, std pv / sqrt (real (length pv)))"

text \<open>The present value of one path from its row of tracked prices.\<close>

definition row_value :: "nat \<Rightarrow> real \<Rightarrow> real list \<Rightarrow> real" where
  "row_value n d s =
     (let wsr = exercise_row_loop lockout s (rev [1..<n]) (init_row n s)
      in if n > 1 then DCF_row n (tl (fst wsr)) d else d * tl (fst wsr) ! 0)"

text \<open>The path without volatility: \<open>S(t) = S0\<cdot>exp(r\<cdot>dt\<cdot>t)\<close> for \<open>t = 0, \<dots>, n\<close>.\<close>

definition zero_vol_row :: "real \<Rightarrow> nat \<Rightarrow> real list" where
  "zero_vol_row S0 n = map (\<lambda>t. S0 * exp (r * dt * real t)) [0..<n + 1]"

section \<open>The discounted cash flow helper computes the present value\<close>

lemma drop_last_two:
  assumes "2 \<le> length cf"
  shows "drop (length cf - 2) cf = [cf ! (length cf - 2), cf ! (length cf - 1)]"
proof (rule nth_equalityI)
  show "length (drop (length cf - 2) cf) = length [cf ! (length cf - 2), cf ! (length cf - 1)]"
    using assms by simp
next
  fix i assume "i < length (drop (length cf - 2) cf)"
  then have "i = 0 \<or> i = 1" using assms by auto
  moreover have "length cf - 2 + 1 = length cf - 1" using assms by simp
  ultimately show "drop (length cf - 2) cf ! i = [cf ! (length cf - 2), cf ! (length cf - 1)] ! i"
    using assms by auto
qed

lemma horner_drop:
  assumes "m < length cf"
  shows "horner d (drop m cf) = cf ! m + d * horner d (drop (Suc m) cf)"
  using assms by (simp flip: Cons_nth_drop_Suc)

text \<open>The invariant of the loop of \<^verbatim>\<open>DCF\<close>: every column already written holds the
  value of the cash flows from the column before it on.\<close>

lemma DCF_fold_inv:
  assumes k: "2 \<le> k" "length cf = k" "length out1 = k"
    and last: "out1 ! (k - 1) = horner d (drop (k - 2) cf)"
    and m: "1 \<le> m" "m \<le> k - 1"
  shows "length (foldr (DCF_step d cf) [m..<k - 1] out1) = k \<and>
         (\<forall>t. m \<le> t \<and> t \<le> k - 1 \<longrightarrow>
            foldr (DCF_step d cf) [m..<k - 1] out1 ! t = horner d (drop (t - 1) cf))"
  using m(2) m(1)
proof (induction m rule: inc_induct)
  case base
  have e: "k - 1 - 1 = k - 2" by simp
  have "out1 ! t = horner d (drop (t - 1) cf)" if "k - 1 \<le> t \<and> t \<le> k - 1" for t
  proof -
    from that have "t = k - 1" by simp
    then show ?thesis using last e by (simp only:)
  qed
  then show ?case using k by simp
next
  case (step j)
  let ?o = "foldr (DCF_step d cf) [Suc j..<k - 1] out1"
  from step have IH: "length ?o = k"
    "\<And>t. Suc j \<le> t \<Longrightarrow> t \<le> k - 1 \<Longrightarrow> ?o ! t = horner d (drop (t - 1) cf)"
    by auto
  have unf: "foldr (DCF_step d cf) [j..<k - 1] out1 = DCF_step d cf j ?o"
    using step.hyps by (simp add: upt_conv_Cons)
  have hj: "horner d (drop (j - 1) cf) = cf ! (j - 1) + d * horner d (drop j cf)"
    using horner_drop[of "j - 1" cf d] step.prems step.hyps k by simp
  show ?case
  proof (intro conjI allI impI)
    show "length (foldr (DCF_step d cf) [j..<k - 1] out1) = k"
      unfolding unf using IH(1) by (simp add: DCF_step_def)
  next
    fix t assume t: "j \<le> t \<and> t \<le> k - 1"
    show "foldr (DCF_step d cf) [j..<k - 1] out1 ! t = horner d (drop (t - 1) cf)"
    proof (cases "t = j")
      case True
      have "?o ! (j + 1) = horner d (drop j cf)"
        using IH(2)[of "j + 1"] step.hyps by simp
      then show ?thesis
        unfolding unf using True t step.hyps IH(1) hj by (simp add: DCF_step_def)
    next
      case False
      then show ?thesis
        unfolding unf using t IH(2)[of t] by (simp add: DCF_step_def)
    qed
  qed
qed

lemma DCF_row_horner:
  assumes "2 \<le> k" "length cf = k"
  shows "DCF_row k cf d = d * horner d cf"
proof -
  let ?o1 = "(replicate k (0::real))[k - 1 := d * cf ! (k - 1) + cf ! (k - 2)]"
  have l1: "length ?o1 = k" by simp
  have two: "drop (k - 2) cf = [cf ! (k - 2), cf ! (k - 1)]"
    using drop_last_two[of cf] assms by simp
  then have last: "?o1 ! (k - 1) = horner d (drop (k - 2) cf)"
    using assms by simp
  have inv: "length (foldr (DCF_step d cf) [1..<k - 1] ?o1) = k \<and>
         (\<forall>t. 1 \<le> t \<and> t \<le> k - 1 \<longrightarrow>
            foldr (DCF_step d cf) [1..<k - 1] ?o1 ! t = horner d (drop (t - 1) cf))"
    using DCF_fold_inv[OF assms(1) assms(2) l1 last, of 1] assms by simp
  show ?thesis
  proof (cases "k > 2")
    case True
    have "foldr (DCF_step d cf) [1..<k - 1] ?o1 ! 1 = horner d cf"
      using inv True by auto
    then show ?thesis
      using True inv by (simp add: DCF_row_def Let_def foldr_conv_fold)
  next
    case False
    then have "k = 2" using assms by simp
    then show ?thesis
      using last two by (simp add: DCF_row_def Let_def)
  qed
qed

lemma spec_recursion_horner:
  assumes "2 \<le> length cf" "spec_recursion cf d PV"
  shows "PV 0 = d * horner d cf"
proof -
  let ?n = "length cf"
  have top: "PV ?n = d * cf ! (?n - 1) + cf ! (?n - 2)"
    and mid: "\<And>t. 2 \<le> t \<Longrightarrow> t \<le> ?n - 1 \<Longrightarrow> PV t = d * PV (t + 1) + cf ! (t - 2)"
    and fin: "PV 1 = PV 2" "PV 0 = d * PV 1"
    using assms(2) by (auto simp: spec_recursion_def Let_def)
  have "2 \<le> m \<Longrightarrow> PV m = horner d (drop (m - 2) cf)" if "m \<le> ?n" for m
    using that
  proof (induction m rule: inc_induct)
    case base
    show ?case using top drop_last_two[OF assms(1)] by simp
  next
    case (step j)
    have "PV j = d * PV (Suc j) + cf ! (j - 2)"
      using mid[of j] step by simp
    moreover have "PV (Suc j) = horner d (drop (j - 1) cf)"
      using step by simp
    moreover have "horner d (drop (j - 2) cf) = cf ! (j - 2) + d * horner d (drop (Suc (j - 2)) cf)"
      using horner_drop[of "j - 2" cf d] step by simp
    moreover have "Suc (j - 2) = j - 1" using step by simp
    ultimately show ?case by simp
  qed
  from this[of 2] assms(1) fin show ?thesis by simp
qed

text \<open>Every row of two columns or more has a table that satisfies the recursion.\<close>

lemma spec_recursion_PV_of:
  assumes "2 \<le> length cf"
  shows "spec_recursion cf d (PV_of cf d)"
proof -
  let ?n = "length cf"
  have ne: "cf \<noteq> []" using assms by auto
  have top: "PV_of cf d ?n = d * cf ! (?n - 1) + cf ! (?n - 2)"
    using ne drop_last_two[OF assms] by (simp add: PV_of_def)
  have mid: "PV_of cf d t = d * PV_of cf d (t + 1) + cf ! (t - 2)" if "t \<in> {2..?n - 1}" for t
  proof -
    have t: "2 \<le> t" "t - 2 < ?n" using that by auto
    have "Suc (t - 2) = t - 1" using t by simp
    then have "horner d (drop (t - 2) cf) = cf ! (t - 2) + d * horner d (drop (t - 1) cf)"
      using horner_drop[OF t(2), of d] by simp
    then show ?thesis using t by (simp add: PV_of_def)
  qed
  have fin: "PV_of cf d 1 = PV_of cf d 2" "PV_of cf d 0 = d * PV_of cf d 1"
    by (simp_all add: PV_of_def)
  show ?thesis unfolding spec_recursion_def Let_def using top mid fin by blast
qed

text \<open>
  Claim C1. For a cash-flow matrix with \<open>k \<ge> 2\<close> columns and a discount factor \<open>d\<close>,
  \<^verbatim>\<open>DCF\<close> returns for each path the value \<open>PV(0)\<close> of the backward recursion
  \<open>PV(k) = d\<cdot>cf(k) + cf(k-1)\<close>, \<open>PV(t) = d\<cdot>PV(t+1) + cf(t-1)\<close> for \<open>t\<close> from \<open>k-1\<close> down
  to \<open>2\<close>, and \<open>PV(0) = d\<cdot>PV(1)\<close> with \<open>PV(1)\<close> the last accumulated value, that is
  \<open>d\<cdot>PV(2)\<close>. In a matrix of three columns and with \<open>d = 0.99\<close>, for every path whose
  row is \<open>[5, 0, 10]\<close> the value returned is within \<open>1e-9\<close> of \<open>14.65299\<close>.
\<close>

theorem DCF_backward_recursion:
  assumes "2 \<le> k" and "\<forall>row \<in> set cf. length row = k \<and> spec_recursion row d (PV row)"
  shows "DCF (Arr2 k cf) d = Inr (map (\<lambda>row. PV row 0) cf) \<and>
         DCF (Arr2 k cf) d = Inr (map (\<lambda>row. d * PV row 2) cf) \<and>
         (\<exists>vs. DCF (Arr2 3 cf3) (99 / 100) = Inr vs \<and> length vs = length cf3 \<and>
            (\<forall>i<length cf3. cf3 ! i = [5, 0, 10] \<longrightarrow>
               \<bar>vs ! i - 1465299 / 100000\<bar> \<le> 1 / 10 ^ 9))"
proof -
  have "DCF_row k row d = PV row 0" if "row \<in> set cf" for row
    using that assms DCF_row_horner[of k row d] spec_recursion_horner[of row d "PV row"]
    by auto
  then have "DCF (Arr2 k cf) d = Inr (map (\<lambda>row. PV row 0) cf)"
    using assms(1) by (simp add: DCF2_def)
  moreover have "map (\<lambda>row. PV row 0) cf = map (\<lambda>row. d * PV row 2) cf"
    using assms(2) by (auto simp: spec_recursion_def Let_def)
  moreover have "DCF (Arr2 3 cf3) (99 / 100) = Inr (map (\<lambda>row. DCF_row 3 row (99 / 100)) cf3)"
    by (simp add: DCF2_def)
  moreover have "\<bar>map (\<lambda>row. DCF_row 3 row (99 / 100)) cf3 ! i - 1465299 / 100000\<bar> \<le> 1 / 10 ^ 9"
    if "i < length cf3" "cf3 ! i = [5, 0, 10]" for i
    using that by (simp add: DCF_row_horner)
  ultimately show ?thesis by simp
qed

theorem DCF_backward_recursion_witness:
  "(2::nat) \<le> 3 \<and> length [5, 0, 10::real] = 3 \<and>
   spec_recursion [5, 0, 10] (99 / 100) PV_example \<and>
   DCF (Arr2 3 [[5, 0, 10]]) (99 / 100) = Inr [PV_example 0] \<and>
   \<bar>PV_example 0 - 1465299 / 100000\<bar> \<le> 1 / 10 ^ 9"
  using DCF_backward_recursion[of 3 "[[5, 0, 10]]" "99 / 100" "\<lambda>_. PV_example" "[[5, 0, 10]]"]
  by (simp add: spec_recursion_def PV_example_def)

section \<open>The stages of the simulation, row by row\<close>

subsection \<open>Loops that write one column per step\<close>

lemma length_fold_upd:
  "length (fold (\<lambda>t b. if P t then b[t := v t] else b) ts b) = length b"
  by (induction ts arbitrary: b) auto

lemma fold_upd_nth:
  "i < length b \<Longrightarrow>
   fold (\<lambda>t b. if P t then b[t := v t] else b) ts b ! i =
     (if i \<in> set ts \<and> P i then v i else b ! i)"
proof (induction ts arbitrary: b rule: rev_induct)
  case Nil
  then show ?case by simp
next
  case (snoc t ts)
  let ?b = "fold (\<lambda>t b. if P t then b[t := v t] else b) ts b"
  have len: "i < length ?b"
    using snoc.prems by (simp only: length_fold_upd)
  have IH: "?b ! i = (if i \<in> set ts \<and> P i then v i else b ! i)"
    using snoc by simp
  show ?case
  proof (cases "t = i")
    case True
    then show ?thesis using len IH by simp
  next
    case False
    then show ?thesis using IH by auto
  qed
qed

lemma B18_step_eq:
  "B18_step lk s = (\<lambda>t b. if lk < t then b[t := B18_val lk s t] else b)"
proof (intro ext)
  fix t b
  show "B18_step lk s t b = (if lk < t then b[t := B18_val lk s t] else b)"
  proof (cases "lk < t")
    case False
    then show ?thesis by (simp add: B18_step_def)
  next
    case True
    show ?thesis
    proof (cases "t - lk < 29")
      case a: True
      then have "min 30 (t - lk + 1) = t - lk + 1" by simp
      then have "t + 1 - min 30 (t - lk + 1) = lk" using True by simp
      then show ?thesis using True a by (simp add: B18_step_def B18_val_def)
    next
      case b: False
      then have "min 30 (t - lk + 1) = 30" by simp
      then show ?thesis using True b by (simp add: B18_step_def B18_val_def window_def)
    qed
  qed
qed

lemma B18_step_lt30_eq:
  "B18_step_lt30 lk s = (\<lambda>t b. if lk < t then b[t := B18_val lk s t] else b)"
proof (intro ext)
  fix t b
  show "B18_step_lt30 lk s t b = (if lk < t then b[t := B18_val lk s t] else b)"
  proof (cases "lk < t")
    case False
    then show ?thesis by (simp add: B18_step_lt30_def)
  next
    case True
    show ?thesis
    proof (cases "t - lk < 30")
      case a: True
      then have "min 30 (t - lk + 1) = t - lk + 1" by simp
      then have "t + 1 - min 30 (t - lk + 1) = lk" using True by simp
      then show ?thesis using True a by (simp add: B18_step_lt30_def B18_val_def)
    next
      case b: False
      then have "min 30 (t - lk + 1) = 30" by simp
      then show ?thesis using True b by (simp add: B18_step_lt30_def B18_val_def window_def)
    qed
  qed
qed

lemma length_B18_row: "length (B18_row lk n s) = n + 1"
  by (simp add: B18_row_def B18_step_eq length_fold_upd)

lemma B18_row_nth:
  assumes "t \<le> n"
  shows "B18_row lk n s ! t = (if lk < t then B18_val lk s t else 0)"
proof -
  have "t < length (replicate (n + 1) (0::real))" using assms by simp
  then have "B18_row lk n s ! t =
      (if t \<in> set [1..<n + 1] \<and> lk < t then B18_val lk s t else replicate (n + 1) 0 ! t)"
    unfolding B18_row_def B18_step_eq by (rule fold_upd_nth)
  moreover have "t \<in> set [1..<n + 1] \<longleftrightarrow> 1 \<le> t" using assms by auto
  moreover have "replicate (n + 1) (0::real) ! t = 0"
    using assms by (simp only: nth_replicate less_Suc_eq_le Suc_eq_plus1[symmetric])
  ultimately show ?thesis by auto
qed

subsection \<open>Zeroing a row from a column on\<close>

lemma length_zero_from: "length (zero_from k row) = length row"
  by (simp add: zero_from_def)

lemma zero_from_nth:
  "i < length row \<Longrightarrow> zero_from k row ! i = (if i < k then row ! i else 0)"
  by (simp add: zero_from_def nth_append)

lemma zero_from_zero_from: "zero_from j (zero_from k row) = zero_from (min j k) row"
  by (rule nth_equalityI) (auto simp: length_zero_from zero_from_nth)

lemma zero_from_length: "length row \<le> k \<Longrightarrow> zero_from k row = row"
  by (simp add: zero_from_def)

lemma redeem_fold:
  "fold (redeem_step b) ts (zero_from c s) = zero_from (redeem_cut b ts c) s"
proof (induction ts arbitrary: c)
  case Nil
  then show ?case by (simp add: redeem_cut_def)
next
  case (Cons t ts)
  have "redeem_step b t (zero_from c s) =
        zero_from (if 20 \<le> b ! t then min (t + 22) c else c) s"
    by (simp add: redeem_step_def zero_from_zero_from)
  then show ?case using Cons.IH by (simp add: redeem_cut_def)
qed

lemma redeem_row_cut:
  "redeem_row n b s = zero_from (redeem_cut b [0..<n - 1] (length s)) s"
proof -
  have "redeem_row n b s = fold (redeem_step b) [0..<n - 1] (zero_from (length s) s)"
    by (simp add: redeem_row_def zero_from_length)
  then show ?thesis by (simp only: redeem_fold)
qed

lemma redeem_cut_le: "redeem_cut b ts c \<le> c"
proof (induction ts arbitrary: c)
  case Nil
  then show ?case by (simp add: redeem_cut_def)
next
  case (Cons t ts)
  have "redeem_cut b (t # ts) c = redeem_cut b ts (if 20 \<le> b ! t then min (t + 22) c else c)"
    by (simp add: redeem_cut_def)
  also have "\<dots> \<le> (if 20 \<le> b ! t then min (t + 22) c else c)" by (rule Cons.IH)
  also have "\<dots> \<le> c" by simp
  finally show ?case .
qed

lemma redeem_cut_trigger:
  "t \<in> set ts \<Longrightarrow> 20 \<le> b ! t \<Longrightarrow> redeem_cut b ts c \<le> t + 22"
proof (induction ts arbitrary: c)
  case Nil
  then show ?case by simp
next
  case (Cons u ts)
  have unf: "redeem_cut b (u # ts) c = redeem_cut b ts (if 20 \<le> b ! u then min (u + 22) c else c)"
    by (simp add: redeem_cut_def)
  show ?case
  proof (cases "t = u")
    case True
    then have "redeem_cut b (u # ts) c = redeem_cut b ts (min (t + 22) c)"
      using Cons.prems unf by simp
    also have "\<dots> \<le> min (t + 22) c" by (rule redeem_cut_le)
    finally show ?thesis by simp
  next
    case False
    then have "t \<in> set ts" using Cons.prems by simp
    then show ?thesis using Cons.IH Cons.prems(2) unf by simp
  qed
qed

lemma redeem_cut_no_trigger:
  "\<forall>t \<in> set ts. b ! t < 20 \<Longrightarrow> redeem_cut b ts c = c"
  by (induction ts arbitrary: c) (auto simp: redeem_cut_def)

lemma redeem_row_zero:
  assumes "20 \<le> b ! t" "t + 22 \<le> t'" "t' \<le> n" "length s = n + 1"
  shows "redeem_row n b s ! t' = 0"
proof -
  have "t \<in> set [0..<n - 1]" using assms by auto
  then have "redeem_cut b [0..<n - 1] (length s) \<le> t + 22"
    using assms(1) by (rule redeem_cut_trigger)
  then show ?thesis using assms by (simp add: redeem_row_cut zero_from_nth)
qed

lemma length_GBM_fold:
  "length (fold (GBM_step drift vs dr) ts s) = length s"
  by (induction ts arbitrary: s) (auto simp: GBM_step_def)

lemma GBM_fold_nth:
  assumes "m \<le> n"
  shows "\<forall>t \<le> m. fold (GBM_step drift vs dr) [1..<m + 1] ((replicate (n + 1) 0)[0 := S0]) ! t
           = gbm_val S0 drift vs dr t"
  using assms
proof (induction m)
  case 0
  then show ?case by simp
next
  case (Suc m)
  let ?s = "fold (GBM_step drift vs dr) [1..<m + 1] ((replicate (n + 1) 0)[0 := S0])"
  have IH: "\<And>t. t \<le> m \<Longrightarrow> ?s ! t = gbm_val S0 drift vs dr t"
    using Suc by simp
  have len: "length ?s = n + 1" by (simp only: length_GBM_fold) simp
  have unf: "fold (GBM_step drift vs dr) [1..<Suc m + 1] ((replicate (n + 1) 0)[0 := S0]) =
             GBM_step drift vs dr (Suc m) ?s"
    by simp
  show ?case
  proof (intro allI impI)
    fix t assume "t \<le> Suc m"
    show "fold (GBM_step drift vs dr) [1..<Suc m + 1] ((replicate (n + 1) 0)[0 := S0]) ! t
           = gbm_val S0 drift vs dr t"
    proof (cases "t = Suc m")
      case True
      then show ?thesis unfolding unf using len Suc.prems IH[of m]
        by (simp add: GBM_step_def)
    next
      case False
      then have "t \<le> m" using \<open>t \<le> Suc m\<close> by simp
      then show ?thesis unfolding unf using False IH[of t] by (simp add: GBM_step_def)
    qed
  qed
qed

lemma length_GBM_row: "length (GBM_row S0 drift vs dr n) = n + 1"
  by (simp add: GBM_row_def length_GBM_fold)

lemma GBM_row_nth: "t \<le> n \<Longrightarrow> GBM_row S0 drift vs dr n ! t = gbm_val S0 drift vs dr t"
  using GBM_fold_nth[of n n drift vs dr S0] by (simp add: GBM_row_def)

lemma gbm_val_pos: "0 < S0 \<Longrightarrow> 0 < gbm_val S0 drift vs dr t"
  by (induction t) simp_all

lemma gbm_val_nonpos: "S0 \<le> 0 \<Longrightarrow> gbm_val S0 drift vs dr t \<le> 0"
  by (induction t) (simp_all add: mult_le_0_iff)

lemma gbm_val_zero_vol: "gbm_val S0 drift 0 dr t = S0 * exp (drift * real t)"
  by (induction t) (simp_all add: exp_add algebra_simps)

lemma length_simulate_paths: "length (simulate_paths z S0 n vol) = N"
  by (simp add: simulate_paths_def Let_def)

lemma simulate_paths_nth:
  "i < N \<Longrightarrow> simulate_paths z S0 n vol ! i =
     GBM_row S0 ((r - vol ^ 2 / 2) * dt) (vol * sqrt dt) (draws z i) n"
  by (simp add: simulate_paths_def Let_def)

lemma map2_map_same: "map2 f (map g xs) xs = map (\<lambda>x. f (g x) x) xs"
  by (induction xs) auto

lemma tracked_prices_rows:
  "tracked_prices z S0 n vol = map (tracked_row n) (simulate_paths z S0 n vol)"
  by (simp add: tracked_prices_def Let_def redeem_def barrier_counts_def map2_map_same
      tracked_row_def)

lemma length_tracked_prices: "length (tracked_prices z S0 n vol) = N"
  by (simp add: tracked_prices_rows length_simulate_paths)

lemma tracked_prices_nth:
  "i < N \<Longrightarrow> tracked_prices z S0 n vol ! i = tracked_row n (simulate_paths z S0 n vol ! i)"
  by (simp add: tracked_prices_rows length_simulate_paths)

subsection \<open>A path without volatility that starts at or above the barrier\<close>

lemma zero_vol_nth:
  assumes "i < N" "t \<le> n"
  shows "simulate_paths z S0 n 0 ! i ! t = S0 * exp (r * dt * real t)"
  using assms by (simp add: simulate_paths_nth GBM_row_nth gbm_val_zero_vol)

lemma count18_all:
  assumes "\<forall>x \<in> set xs. 18 \<le> x"
  shows "count18 xs = real (length xs)"
proof -
  have "filter (\<lambda>x. 18 \<le> x) xs = xs" using assms by (simp add: filter_id_conv)
  then show ?thesis by (simp add: count18_def)
qed

lemma count18_none:
  assumes "\<forall>x \<in> set xs. x < 18"
  shows "count18 xs = 0"
proof -
  have "filter (\<lambda>x. 18 \<le> x) xs = []" using assms by (auto simp: filter_empty_conv)
  then show ?thesis by (simp add: count18_def)
qed

lemma set_slice_subset: "set (slice a b xs) \<subseteq> set xs"
proof -
  have "set (take (b - a) (drop a xs)) \<subseteq> set (drop a xs)" by (rule set_take_subset)
  also have "\<dots> \<subseteq> set xs" by (rule set_drop_subset)
  finally show ?thesis by (simp add: slice_def)
qed

lemma length_slice: "b \<le> length xs \<Longrightarrow> length (slice a b xs) = b - a"
  by (simp add: slice_def)

lemma B18_val_all:
  assumes "\<forall>x \<in> set s. 18 \<le> x" "t < length s"
  shows "B18_val lk s t = real (min 30 (t - lk + 1))"
proof -
  let ?a = "t + 1 - min 30 (t - lk + 1)"
  have "\<forall>x \<in> set (slice ?a (t + 1) s). 18 \<le> x"
    using assms(1) set_slice_subset[of ?a "t + 1" s] by blast
  then have "B18_val lk s t = real (length (slice ?a (t + 1) s))"
    unfolding B18_val_def by (rule count18_all)
  also have "length (slice ?a (t + 1) s) = t + 1 - ?a"
    using assms(2) by (simp add: length_slice)
  also have "t + 1 - ?a = min 30 (t - lk + 1)" by auto
  finally show ?thesis .
qed

lemma zero_vol_barrier:
  assumes "18 \<le> S0" "i < N"
  shows "\<forall>x \<in> set (simulate_paths z S0 n 0 ! i). 18 \<le> x"
proof
  fix x assume "x \<in> set (simulate_paths z S0 n 0 ! i)"
  then obtain t where t: "t < length (simulate_paths z S0 n 0 ! i)"
      "x = simulate_paths z S0 n 0 ! i ! t"
    by (auto simp: in_set_conv_nth)
  have "t \<le> n" using t(1) assms(2) by (simp add: simulate_paths_nth length_GBM_row)
  then have "x = S0 * exp (r * dt * real t)" using t(2) assms(2) by (simp add: zero_vol_nth)
  moreover have "1 \<le> exp (r * dt * real t)" by (simp add: r_def dt_def)
  ultimately show "18 \<le> x"
    using assms(1) mult_mono[of 18 S0 1 "exp (r * dt * real t)"] by simp
qed

lemma zero_vol_count_20:
  assumes "18 \<le> S0" "i < N" "19 \<le> n"
  shows "barrier_counts lockout n (simulate_paths z S0 n 0) ! i ! 19 = 20"
proof -
  let ?s = "simulate_paths z S0 n 0 ! i"
  have "length ?s = n + 1" using assms(2) by (simp add: simulate_paths_nth length_GBM_row)
  then have "B18_val lockout ?s 19 = real (min 30 (19 - lockout + 1))"
    using zero_vol_barrier[OF assms(1,2)] assms(3) by (intro B18_val_all) auto
  then show ?thesis
    using assms by (simp add: barrier_counts_def length_simulate_paths B18_row_nth lockout_def)
qed

lemma N_pos: "0 < N" by (simp add: N_def)

lemma zero_vol_redeemed:
  assumes "18 \<le> S0" "i < N" "41 \<le> t'" "t' \<le> n"
  shows "tracked_prices z S0 n 0 ! i ! t' = 0"
proof -
  let ?s = "simulate_paths z S0 n 0 ! i"
  have len: "length ?s = n + 1" using assms(2) by (simp add: simulate_paths_nth length_GBM_row)
  have "B18_row lockout n ?s ! 19 = 20"
    using zero_vol_count_20[OF assms(1,2), of n z] assms
    by (simp add: barrier_counts_def length_simulate_paths)
  then have b: "20 \<le> B18_row lockout n ?s ! 19" by simp
  have "redeem_row n (B18_row lockout n ?s) ?s ! t' = 0"
    using b _ assms(4) len by (rule redeem_row_zero) (use assms(3) in simp)
  then show ?thesis using assms(2) by (simp add: tracked_prices_nth tracked_row_def)
qed

subsection \<open>The redeemed row, column by column\<close>

lemma redeem_cut_le_iff:
  "redeem_cut b ts c \<le> t' \<longleftrightarrow> c \<le> t' \<or> (\<exists>t \<in> set ts. 20 \<le> b ! t \<and> t + 22 \<le> t')"
proof (induction ts arbitrary: c)
  case Nil
  then show ?case by (simp add: redeem_cut_def)
next
  case (Cons u ts)
  have unf: "redeem_cut b (u # ts) c = redeem_cut b ts (if 20 \<le> b ! u then min (u + 22) c else c)"
    by (simp add: redeem_cut_def)
  show ?case unfolding unf Cons.IH by auto
qed

lemma tracked_row_nth:
  assumes "length s = n + 1" "t' \<le> n"
  shows "tracked_row n s ! t' =
         (if \<exists>t. t + 22 \<le> t' \<and> 20 \<le> B18_row lockout n s ! t then 0 else s ! t')"
proof -
  let ?b = "B18_row lockout n s"
  let ?c = "redeem_cut ?b [0..<n - 1] (length s)"
  have "?c \<le> t' \<longleftrightarrow> (\<exists>t \<in> set [0..<n - 1]. 20 \<le> ?b ! t \<and> t + 22 \<le> t')"
    using assms by (simp add: redeem_cut_le_iff)
  also have "\<dots> \<longleftrightarrow> (\<exists>t. t + 22 \<le> t' \<and> 20 \<le> ?b ! t)"
    using assms(2) by auto
  finally have c: "?c \<le> t' \<longleftrightarrow> (\<exists>t. t + 22 \<le> t' \<and> 20 \<le> ?b ! t)" .
  have row: "tracked_row n s ! t' = (if t' < ?c then s ! t' else 0)"
    using assms by (simp add: tracked_row_def redeem_row_cut zero_from_nth)
  show ?thesis
  proof (cases "?c \<le> t'")
    case True
    then have "\<exists>t. t + 22 \<le> t' \<and> 20 \<le> ?b ! t" using c by blast
    then show ?thesis using True row by auto
  next
    case False
    then have "\<not> (\<exists>t. t + 22 \<le> t' \<and> 20 \<le> ?b ! t)" using c by blast
    then show ?thesis using False row by auto
  qed
qed

lemma zero_vol_count:
  assumes "18 \<le> S0" "i < N" "t \<le> n"
  shows "barrier_counts lockout n (simulate_paths z S0 n 0) ! i ! t =
         (if 0 < t then real (min 30 (t + 1)) else 0)"
proof -
  let ?s = "simulate_paths z S0 n 0 ! i"
  have "length ?s = n + 1" using assms(2) by (simp add: simulate_paths_nth length_GBM_row)
  then have "B18_val lockout ?s t = real (min 30 (t - lockout + 1))"
    using zero_vol_barrier[OF assms(1,2)] assms(3) by (intro B18_val_all) auto
  then show ?thesis
    using assms by (simp add: barrier_counts_def length_simulate_paths B18_row_nth lockout_def)
qed

lemma zero_vol_no_early_trigger:
  assumes "18 \<le> S0" "i < N" "40 \<le> n"
  shows "\<not> (\<exists>t. t + 22 \<le> 40 \<and> 20 \<le> barrier_counts lockout n (simulate_paths z S0 n 0) ! i ! t)"
proof
  assume "\<exists>t. t + 22 \<le> 40 \<and> 20 \<le> barrier_counts lockout n (simulate_paths z S0 n 0) ! i ! t"
  then obtain t where t: "t + 22 \<le> 40"
    "20 \<le> barrier_counts lockout n (simulate_paths z S0 n 0) ! i ! t" by blast
  then have "t \<le> n" using assms(3) by simp
  from zero_vol_count[OF assms(1,2) this, of z] t show False
    by (auto split: if_splits)
qed

lemma zero_vol_trigger:
  assumes "18 \<le> S0" "i < N" "19 \<le> n"
  shows "\<exists>t. t + 22 \<le> 41 \<and> 20 \<le> barrier_counts lockout n (simulate_paths z S0 n 0) ! i ! t"
proof -
  have "barrier_counts lockout n (simulate_paths z S0 n 0) ! i ! 19 = 20"
    using zero_vol_count[OF assms(1,2), of 19 n z] assms(3) by simp
  then have "(19::nat) + 22 \<le> 41 \<and> 20 \<le> barrier_counts lockout n (simulate_paths z S0 n 0) ! i ! 19"
    by simp
  then show ?thesis by blast
qed

section \<open>Barrier counts, redemption and the step count\<close>

text \<open>
  Claim C10. With the ramp-up test \<^verbatim>\<open>t - lockout < 30\<close> in place of
  \<^verbatim>\<open>t - lockout < 29\<close> the counting loop computes the same matrix of barrier counts,
  for every price matrix, every lockout and every number of steps: at
  \<open>t - lockout = 29\<close> both branches count over the same 30 columns.
\<close>

theorem ramp_up_test_29_or_30:
  "barrier_counts_lt30 lk steps S = barrier_counts lk steps S"
  by (simp add: barrier_counts_lt30_def barrier_counts_def B18_row_lt30_def B18_row_def
      B18_step_lt30_eq B18_step_eq)

text \<open>
  Claim C5, as the specification words it: the count over a trailing window of exactly
  \<open>min(30, t - lockout)\<close> steps ending at step \<open>t\<close>. With no lockout and the prices
  \<open>[20, 20]\<close>, the loop stores 2 at step 1, where a window of one step holds one price.
\<close>

theorem barrier_window_counterexample:
  "barrier_counts 0 1 [[20, 20]] ! 0 ! 1 = 2 \<and> window_claimed 0 [20, 20] 1 = 1 \<and>
   barrier_counts 0 1 [[20, 20]] ! 0 ! 1 \<noteq> window_claimed 0 [20, 20] 1"
  by (simp add: barrier_counts_def B18_row_nth B18_val_def window_claimed_def count18_def
      slice_def)

text \<open>
  Claim C5, amended. For every step \<open>t > lockout\<close>, the barrier count of a path at \<open>t\<close> is
  the number of prices at or above 18 among the \<open>min(30, t - lockout + 1)\<close> columns that
  end with column \<open>t\<close>: during ramp-up the window starts at column \<open>lockout\<close> itself.
\<close>

theorem barrier_window:
  assumes "lk < t" and "t \<le> steps" and "i < length S"
  shows "barrier_counts lk steps S ! i ! t =
         count18 (slice (t + 1 - min 30 (t - lk + 1)) (t + 1) (S ! i))"
  using assms by (simp add: barrier_counts_def B18_row_nth B18_val_def)

theorem barrier_window_witness:
  "(0::nat) < 1 \<and> (1::nat) \<le> 1 \<and> (0::nat) < length [[20, 20::real]] \<and>
   barrier_counts 0 1 [[20, 20]] ! 0 ! 1 = 2"
  using barrier_window[of 0 1 1 0 "[[20, 20]]"]
  by (simp add: count18_def slice_def)

text \<open>
  Claim C7, as the specification words it: the number of steps is \<open>round(T/dt)\<close>. For
  \<open>T = 0.999\<close> the quotient is \<open>251.748\<close>; the source takes 251 steps and rounding
  gives 252.
\<close>

theorem steps_round_counterexample:
  "steps_of (999 / 1000) = 251 \<and> round ((999 / 1000 :: real) / dt) = 252 \<and>
   steps_of (999 / 1000) \<noteq> round ((999 / 1000 :: real) / dt)"
  by (simp add: steps_of_def py_int_def dt_def round_def)

text \<open>
  Claim C7, amended. For every \<open>T > 0\<close> the number of steps is \<open>T/dt\<close> truncated, the
  floor of \<open>252 T\<close>. It is the nearest integer to \<open>T/dt\<close> when the fractional part of
  \<open>252 T\<close> is below one half, and one less than the nearest integer when the fractional
  part is above one half.
\<close>

theorem steps_truncate:
  assumes "0 < T"
  shows "steps_of T = \<lfloor>T * 252\<rfloor> \<and>
         (frac (T * 252) < 1 / 2 \<longrightarrow> steps_of T = round (T / dt)) \<and>
         (1 / 2 < frac (T * 252) \<longrightarrow> steps_of T = round (T / dt) - 1)"
proof -
  have s: "steps_of T = \<lfloor>T * 252\<rfloor>"
    using assms by (simp add: steps_of_def py_int_def dt_def)
  have rd: "round (T / dt) = \<lfloor>T * 252 + 1 / 2\<rfloor>"
    by (simp add: round_def dt_def)
  have lo: "of_int \<lfloor>T * 252\<rfloor> \<le> T * 252" by (rule of_int_floor_le)
  have f: "frac (T * 252) = T * 252 - of_int \<lfloor>T * 252\<rfloor>" by (simp add: frac_def)
  have hi: "T * 252 < of_int \<lfloor>T * 252\<rfloor> + 1"
    using floor_correct[of "T * 252"] by simp
  have "\<lfloor>T * 252 + 1 / 2\<rfloor> = \<lfloor>T * 252\<rfloor>" if "frac (T * 252) < 1 / 2"
  proof (rule floor_unique)
    show "of_int \<lfloor>T * 252\<rfloor> \<le> T * 252 + 1 / 2" using lo by linarith
    show "T * 252 + 1 / 2 < of_int \<lfloor>T * 252\<rfloor> + 1" using that f by linarith
  qed
  moreover have "\<lfloor>T * 252 + 1 / 2\<rfloor> = \<lfloor>T * 252\<rfloor> + 1" if "1 / 2 < frac (T * 252)"
  proof (rule floor_unique)
    have e: "(of_int (\<lfloor>T * 252\<rfloor> + 1) :: real) = of_int \<lfloor>T * 252\<rfloor> + 1" by simp
    show "of_int (\<lfloor>T * 252\<rfloor> + 1) \<le> T * 252 + 1 / 2"
      unfolding e using that f by linarith
    show "T * 252 + 1 / 2 < of_int (\<lfloor>T * 252\<rfloor> + 1) + 1"
      unfolding e using hi by linarith
  qed
  ultimately show ?thesis using s rd by simp
qed

theorem steps_truncate_witness:
  "(0::real) < 2 \<and> frac (2 * 252 :: real) < 1 / 2 \<and> steps_of 2 = 504 \<and>
   steps_of 2 = round (2 / dt) \<and>
   (0::real) < 999 / 1000 \<and> 1 / 2 < frac (999 / 1000 * 252 :: real) \<and>
   steps_of (999 / 1000) = round (999 / 1000 / dt) - 1"
  using steps_truncate[of 2] steps_truncate[of "999 / 1000"]
  by (simp add: dt_def round_def frac_def)

text \<open>
  Claim C4. For every path and every column \<open>t'\<close> of the matrix, the price the exercise
  stage reads at \<open>t'\<close> is 0 when some step \<open>t\<close> with a barrier count of at least 20 lies 22
  steps or more before \<open>t'\<close>, and is the simulated price, unchanged, otherwise. So every
  trigger, at whatever step, zeroes all columns from \<open>t + 22\<close> on that lie in the matrix,
  and nothing else is zeroed: the delay is 22 steps, no less. (The redemption loop stops at
  \<open>steps - 2\<close>; for the two later steps no column \<open>t + 22\<close> lies in the matrix.)
\<close>

theorem redemption_after_22_steps:
  assumes "i < N" and "t' \<le> steps"
  shows "tracked_prices z S0 steps vol ! i ! t' =
         (if \<exists>t. t + 22 \<le> t' \<and>
                 20 \<le> barrier_counts lockout steps (simulate_paths z S0 steps vol) ! i ! t
          then 0 else simulate_paths z S0 steps vol ! i ! t')"
proof -
  let ?s = "simulate_paths z S0 steps vol ! i"
  have len: "length ?s = steps + 1"
    using assms(1) by (simp add: simulate_paths_nth length_GBM_row)
  have "barrier_counts lockout steps (simulate_paths z S0 steps vol) ! i = B18_row lockout steps ?s"
    using assms(1) by (simp add: barrier_counts_def length_simulate_paths)
  then show ?thesis
    using assms(1) tracked_row_nth[OF len assms(2)] by (simp add: tracked_prices_nth)
qed

theorem redemption_after_22_steps_witness:
  "0 < N \<and> (41::nat) \<le> 42 \<and> (40::nat) \<le> 42 \<and>
   barrier_counts lockout 42 (simulate_paths no_shock 20 42 0) ! 0 ! 19 = 20 \<and>
   tracked_prices no_shock 20 42 0 ! 0 ! 41 = 0 \<and>
   tracked_prices no_shock 20 42 0 ! 0 ! 40 = 20 * exp (r * dt * 40) \<and>
   (0::real) < 20 * exp (r * dt * 40)"
  using redemption_after_22_steps[of 0 41 42 no_shock 20 0]
    redemption_after_22_steps[of 0 40 42 no_shock 20 0]
    zero_vol_trigger[of 20 0 42 no_shock] zero_vol_no_early_trigger[of 20 0 42 no_shock]
    zero_vol_count[of 20 0 19 42 no_shock] zero_vol_nth[of 0 40 42 no_shock 20] N_pos
  by simp

text \<open>
  Claim C2. For \<open>S0 > 0\<close> (and any \<open>T\<close> and volatility), in the price matrix after the
  redemption stage a zero at step \<open>t\<close> of a path is followed by zeros at every later step
  \<open>t'\<close>, and the simulated prices, before redemption, are strictly positive: a zero is
  never the result of the price update.
\<close>

theorem zero_is_absorbing:
  assumes "0 < S0" and "i < N" and "t < t'" and "t' \<le> steps"
  shows "(tracked_prices z S0 steps vol ! i ! t = 0 \<longrightarrow>
            tracked_prices z S0 steps vol ! i ! t' = 0) \<and>
         0 < simulate_paths z S0 steps vol ! i ! t \<and>
         0 < simulate_paths z S0 steps vol ! i ! t'"
proof -
  let ?s = "simulate_paths z S0 steps vol ! i"
  let ?c = "redeem_cut (B18_row lockout steps ?s) [0..<steps - 1] (length ?s)"
  have len: "length ?s = steps + 1"
    using assms(2) by (simp add: simulate_paths_nth length_GBM_row)
  have pos: "0 < ?s ! u" if "u \<le> steps" for u
    using that assms(1,2) by (simp add: simulate_paths_nth GBM_row_nth gbm_val_pos)
  have row: "tracked_prices z S0 steps vol ! i = zero_from ?c ?s"
    using assms(2) by (simp add: tracked_prices_nth tracked_row_def redeem_row_cut)
  have "zero_from ?c ?s ! t' = 0" if "zero_from ?c ?s ! t = 0"
  proof -
    have "\<not> t < ?c"
      using that pos[of t] assms(3,4) len by (auto simp: zero_from_nth)
    then show ?thesis using assms(3,4) len by (simp add: zero_from_nth)
  qed
  then show ?thesis using pos[of t] pos[of t'] assms(3,4) row by simp
qed

theorem zero_is_absorbing_witness:
  "(0::real) < 20 \<and> 0 < N \<and> (41::nat) < 42 \<and> (42::nat) \<le> 42 \<and>
   tracked_prices no_shock 20 42 0 ! 0 ! 41 = 0 \<and>
   tracked_prices no_shock 20 42 0 ! 0 ! 42 = 0 \<and>
   0 < simulate_paths no_shock 20 42 0 ! 0 ! 41"
  using zero_is_absorbing[of 20 0 41 42 42 no_shock 0]
    zero_vol_redeemed[of 20 0 41 42 no_shock] N_pos
  by simp

section \<open>The backward exercise pass\<close>

subsection \<open>The pass works path by path\<close>

lemma map2_map2_same:
  "map2 f xs (map2 g xs ys) = map2 (\<lambda>x y. f x (g x y)) xs ys"
  by (induction xs ys rule: list_induct2') auto

lemma map2_map_right: "map2 f xs (map g xs) = map (\<lambda>x. f x (g x)) xs"
  by (induction xs) auto

lemma exercise_step_rows:
  assumes "length S = length WSR"
  shows "exercise_step lk t S WSR = map2 (exercise_row_step lk t) S WSR"
proof (cases "t > lk")
  case True
  then show ?thesis by (simp add: exercise_step_def exercise_row_step_def)
next
  case False
  have "map2 (\<lambda>s wsr. wsr) S WSR = map snd (zip S WSR)"
    by (simp add: case_prod_unfold)
  also have "\<dots> = WSR" using assms by simp
  finally show ?thesis using False by (simp add: exercise_step_def exercise_row_step_def)
qed

lemma exercise_loop_rows:
  assumes "length S = length WSR"
  shows "exercise_loop lk S ts WSR = map2 (\<lambda>s. exercise_row_loop lk s ts) S WSR"
  using assms
proof (induction ts arbitrary: WSR)
  case Nil
  have "map2 (\<lambda>s wsr. wsr) S WSR = map snd (zip S WSR)"
    by (simp add: case_prod_unfold)
  then show ?case using Nil by (simp add: exercise_loop_def exercise_row_loop_def)
next
  case (Cons t ts)
  let ?W = "exercise_step lk t S WSR"
  have W: "?W = map2 (exercise_row_step lk t) S WSR"
    using Cons.prems by (rule exercise_step_rows)
  then have len: "length S = length ?W" using Cons.prems by simp
  have "exercise_loop lk S (t # ts) WSR = exercise_loop lk S ts ?W"
    by (simp add: exercise_loop_def)
  also have "\<dots> = map2 (\<lambda>s. exercise_row_loop lk s ts) S ?W"
    using len by (rule Cons.IH)
  also have "\<dots> = map2 (\<lambda>s wsr. exercise_row_loop lk s ts (exercise_row_step lk t s wsr)) S WSR"
    by (simp only: W map2_map2_same)
  finally show ?case by (simp add: exercise_row_loop_def)
qed

lemma exercise_loop_init:
  "exercise_loop lk S ts (map (init_row n) S) =
     map (\<lambda>s. exercise_row_loop lk s ts (init_row n s)) S"
  by (simp add: exercise_loop_rows map2_map_right)

subsection \<open>The stop rule of a path\<close>

lemma length_zero_row: "length (zero_row n) = n + 1"
  by (simp add: zero_row_def)

lemma zero_row_nth: "i \<le> n \<Longrightarrow> zero_row n ! i = 0"
  by (simp add: zero_row_def del: replicate_Suc)

lemma sum_list_zero_row: "sum_list (zero_row n) = 0"
  by (simp add: zero_row_def sum_list_replicate del: replicate_Suc)

lemma set_zero_row: "set (zero_row n) = {0}"
  by (simp add: zero_row_def del: replicate_Suc)

lemma zero_row_update: "(zero_row n)[i := 0] = zero_row n"
proof (cases "i \<le> n")
  case True
  then have "(zero_row n)[i := zero_row n ! i] = zero_row n" by (simp only: list_update_id)
  then show ?thesis using True by (simp only: zero_row_nth)
next
  case False
  then show ?thesis by (simp add: list_update_beyond length_zero_row)
qed

lemma init_row_zero_row:
  "init_row n s = ((zero_row n)[n := max (s ! n - X) 0],
                   (zero_row n)[n := (if s ! n > X then 1 else 0)])"
  by (simp only: init_row_def zero_row_def)

lemma sum_list_update_real:
  fixes xs :: "real list"
  shows "k < length xs \<Longrightarrow> sum_list (xs[k := x]) = sum_list xs - xs ! k + x"
proof (induction xs arbitrary: k)
  case Nil
  then show ?case by simp
next
  case (Cons y ys)
  then show ?case by (cases k) auto
qed

lemma one_stop_sum:
  assumes "one_stop n j sr"
  shows "sum_list sr \<le> 1 \<and> set sr \<subseteq> {0, 1} \<and> length sr = n + 1 \<and>
         (\<forall>i<j. i \<le> n \<longrightarrow> sr ! i = 0)"
  using assms unfolding one_stop_def
proof (elim disjE exE conjE)
  assume "sr = zero_row n"
  then show ?thesis
    by (simp add: sum_list_zero_row set_zero_row length_zero_row zero_row_nth)
next
  fix k assume k: "j \<le> k" "k \<le> n" "sr = (zero_row n)[k := 1]"
  have "sum_list sr = 1"
    using k by (simp add: sum_list_update_real sum_list_zero_row length_zero_row zero_row_nth)
  moreover have "set sr \<subseteq> {0, 1}"
  proof -
    have "set sr \<subseteq> insert 1 (set (zero_row n))"
      unfolding k(3) by (rule set_update_subset_insert)
    then show ?thesis by (auto simp: set_zero_row)
  qed
  moreover have "sr ! i = 0" if "i < j" "i \<le> n" for i
    using that k by (simp add: zero_row_nth)
  ultimately show ?thesis using k by (simp add: length_zero_row)
qed

lemma one_stop_init: "one_stop n n (snd (init_row n s))"
proof (cases "s ! n > X")
  case True
  then have "snd (init_row n s) = (zero_row n)[n := 1]" by (simp add: init_row_zero_row)
  then show ?thesis unfolding one_stop_def by blast
next
  case False
  then have "snd (init_row n s) = zero_row n"
    by (simp add: init_row_zero_row zero_row_update)
  then show ?thesis by (simp add: one_stop_def)
qed

lemma one_stop_mono:
  assumes "one_stop n (Suc j) sr"
  shows "one_stop n j sr"
proof -
  from assms consider "sr = zero_row n"
    | k where "Suc j \<le> k" "k \<le> n" "sr = (zero_row n)[k := 1]"
    unfolding one_stop_def by blast
  then show ?thesis
  proof cases
    case 1
    then show ?thesis by (simp add: one_stop_def)
  next
    case 2
    then have "j \<le> k \<and> k \<le> n \<and> sr = (zero_row n)[k := 1]" by simp
    then show ?thesis unfolding one_stop_def by blast
  qed
qed

lemma zero_from_unit:
  assumes "j \<le> n" "length sr = n + 1" "\<forall>i<j. sr ! i = 0"
  shows "zero_from (j + 1) (sr[j := 1]) = (zero_row n)[j := 1]"
proof (rule nth_equalityI)
  show "length (zero_from (j + 1) (sr[j := 1])) = length ((zero_row n)[j := 1])"
    using assms by (simp add: length_zero_from length_zero_row)
next
  fix i assume "i < length (zero_from (j + 1) (sr[j := 1]))"
  then have i: "i < n + 1" using assms by (simp add: length_zero_from)
  then show "zero_from (j + 1) (sr[j := 1]) ! i = (zero_row n)[j := 1] ! i"
    using assms
    by (auto simp: zero_from_nth nth_list_update length_zero_row zero_row_nth)
qed

lemma one_stop_step:
  assumes "j < n" "one_stop n (Suc j) (snd wsr)"
  shows "one_stop n j (snd (exercise_row_step lk j s wsr))"
proof (cases "j > lk")
  case False
  then show ?thesis using assms(2) by (simp add: exercise_row_step_def one_stop_mono)
next
  case True
  let ?sr = "snd wsr"
  from one_stop_sum[OF assms(2)]
  have len: "length ?sr = n + 1" and z: "\<forall>i<Suc j. i \<le> n \<longrightarrow> ?sr ! i = 0" by auto
  show ?thesis
  proof (cases "s ! j > X \<and> s ! (j + 1) = 0")
    case stop: True
    have "snd (exercise_row j s wsr) = zero_from (j + 1) (?sr[j := 1])"
      using stop len assms(1) by (simp add: exercise_row_def Let_def)
    also have "\<dots> = (zero_row n)[j := 1]"
      using assms(1) len z by (intro zero_from_unit) auto
    finally have "snd (exercise_row j s wsr) = (zero_row n)[j := 1]" .
    moreover have "j \<le> j \<and> j \<le> n" using assms(1) by simp
    ultimately have "one_stop n j (snd (exercise_row j s wsr))"
      unfolding one_stop_def by blast
    then show ?thesis using True by (simp add: exercise_row_step_def)
  next
    case nostop: False
    have "?sr ! j = 0" using z assms(1) by simp
    then have "?sr[j := 0] = ?sr" using list_update_id[of ?sr j] by simp
    then have "snd (exercise_row j s wsr) = ?sr"
      using nostop len assms(1) by (auto simp: exercise_row_def Let_def)
    then show ?thesis using True assms(2) by (simp add: exercise_row_step_def one_stop_mono)
  qed
qed

lemma one_stop_foldr:
  assumes "j \<le> n"
  shows "one_stop n j (snd (foldr (\<lambda>t. exercise_row_step lk t s) [j..<n] (init_row n s)))"
  using assms
proof (induction j rule: inc_induct)
  case base
  show ?case by (simp add: one_stop_init)
next
  case (step j)
  have "foldr (\<lambda>t. exercise_row_step lk t s) [j..<n] (init_row n s) =
        exercise_row_step lk j s (foldr (\<lambda>t. exercise_row_step lk t s) [Suc j..<n] (init_row n s))"
    using step.hyps by (simp add: upt_conv_Cons)
  then show ?case using one_stop_step[OF step.hyps(2) step.IH] by simp
qed

lemma one_stop_loop:
  "one_stop n 0 (snd (exercise_row_loop lk s (rev [1..<n]) (init_row n s)))"
proof (cases "1 \<le> n")
  case True
  have "one_stop n (Suc 0) (snd (foldr (\<lambda>t. exercise_row_step lk t s) [1..<n] (init_row n s)))"
    using one_stop_foldr[of 1 n lk s] True by simp
  then show ?thesis
    by (simp add: exercise_row_loop_def foldr_conv_fold one_stop_mono)
next
  case False
  then have "n = 0" by simp
  then show ?thesis using one_stop_init[of 0 s] by (simp add: exercise_row_loop_def)
qed

subsection \<open>The valuation inside the loop\<close>

lemma valuation_eq:
  "valuation WSR n d = (if n = 0 then Inl IndexError else Inr (stats (path_values WSR n d)))"
  by (simp add: valuation_def DCF2_def path_values_def stats_def o_def)

lemma backward_loop_eq:
  assumes "1 \<le> n"
  shows "backward_loop lk S n d ts (WSR, res) =
         Inr (exercise_loop lk S ts WSR,
              if ts = [] then res else Some (stats (path_values (exercise_loop lk S ts WSR) n d)))"
proof (induction ts arbitrary: WSR res)
  case Nil
  then show ?case by (simp add: exercise_loop_def)
next
  case (Cons t ts)
  let ?W = "exercise_step lk t S WSR"
  have v: "valuation ?W n d = Inr (stats (path_values ?W n d))"
    using assms by (simp add: valuation_eq)
  have e: "exercise_loop lk S (t # ts) WSR = exercise_loop lk S ts ?W"
    by (simp add: exercise_loop_def)
  have "backward_loop lk S n d (t # ts) (WSR, res) =
        backward_loop lk S n d ts (?W, Some (stats (path_values ?W n d)))"
    by (simp add: v Let_def)
  also have "\<dots> = Inr (exercise_loop lk S ts ?W,
      if ts = [] then Some (stats (path_values ?W n d))
      else Some (stats (path_values (exercise_loop lk S ts ?W) n d)))"
    by (rule Cons.IH)
  finally show ?case by (cases ts) (simp_all add: e exercise_loop_def)
qed

lemma backward_loop_empty: "backward_loop lk S n d [] st = Inr st"
  by simp

lemma backward_loop_returns:
  "\<exists>WSR res. backward_loop lk S n d (rev [1..<n]) (map (init_row n) S, None) = Inr (WSR, res)
      \<and> WSR = exercise_loop lk S (rev [1..<n]) (map (init_row n) S)"
proof (cases "1 \<le> n")
  case True
  then show ?thesis by (simp add: backward_loop_eq)
next
  case False
  then have e: "rev [1..<n] = []" by simp
  show ?thesis unfolding e by (simp add: exercise_loop_def)
qed

text \<open>
  Claim C3. When the backward pass of \<^verbatim>\<open>price_warrant\<close> has completed, the row of the
  stop rule of every path sums to at most 1, and its entries are 0 or 1: at most one
  exercise per path. This holds for every price matrix, step count and discount factor.
\<close>

theorem at_most_one_exercise:
  assumes "backward_loop lockout S steps disc (rev [1..<steps]) (map (init_row steps) S, None)
             = Inr (WSR, res)"
    and "i < length WSR"
  shows "sum_list (snd (WSR ! i)) \<le> 1 \<and> set (snd (WSR ! i)) \<subseteq> {0, 1}"
proof -
  from backward_loop_returns[of lockout S steps disc] assms(1)
  have W: "WSR = exercise_loop lockout S (rev [1..<steps]) (map (init_row steps) S)" by auto
  then have W': "WSR = map (\<lambda>s. exercise_row_loop lockout s (rev [1..<steps]) (init_row steps s)) S"
    by (simp only: exercise_loop_init)
  then have "i < length S" using assms(2) by simp
  then have "snd (WSR ! i) =
      snd (exercise_row_loop lockout (S ! i) (rev [1..<steps]) (init_row steps (S ! i)))"
    using W' by simp
  then show ?thesis
    using one_stop_sum[OF one_stop_loop[of steps lockout "S ! i"]] by simp
qed

theorem at_most_one_exercise_witness:
  "backward_loop lockout [[12, 13, 0]] 2 (99 / 100) (rev [1..<2]) (map (init_row 2) [[12, 13, 0]], None)
     = Inr ([([0, 3 / 2, 0], [0, 1, 0])], Some (stats [99 / 100 * (3 / 2)]))
   \<and> (0::nat) < length [([0, 3 / 2, 0 :: real], [0, 1, 0 :: real])]
   \<and> sum_list [0, 1, 0 :: real] \<le> 1"
proof -
  have b: "backward_loop lockout [[12, 13, 0]] 2 (99 / 100) (rev [1..<2])
      (map (init_row 2) [[12, 13, 0]], None)
     = Inr ([([0, 3 / 2, 0], [0, 1, 0])], Some (stats [99 / 100 * (3 / 2)]))"
    by (simp add: valuation_eq path_values_def DCF_row_horner exercise_step_def lockout_def
        exercise_row_def init_row_def X_def zero_from_def Let_def eval_nat_numeral)
  from at_most_one_exercise[OF b, of 0] b show ?thesis by simp
qed

section \<open>The value the pricing function returns\<close>

lemma path_values_rows:
  "path_values (exercise_loop lockout S (rev [1..<n]) (map (init_row n) S)) n d =
     map (row_value n d) S"
  by (simp add: exercise_loop_init path_values_def row_value_def Let_def o_def)

lemma price_warrant_value:
  assumes "2 \<le> steps_of T"
  shows "price_warrant z S0 T vol =
         Inr (stats (map (row_value (nat (steps_of T)) (exp (- r * dt)))
                (tracked_prices z S0 (nat (steps_of T)) vol)))"
proof -
  let ?n = "nat (steps_of T)"
  have n: "2 \<le> ?n" using assms by simp
  then have ne: "rev [1..<?n] \<noteq> []" by simp
  have "1 \<le> ?n" using n by simp
  note bl = backward_loop_eq[OF this, of lockout _ _ "rev [1..<?n]" _ None]
  show ?thesis
    using assms ne
    by (simp add: price_warrant_def Let_def bl path_values_rows del: One_nat_def)
qed

lemma price_warrant_once_value:
  assumes "1 \<le> steps_of T"
  shows "price_warrant_once z S0 T vol =
         Inr (stats (map (row_value (nat (steps_of T)) (exp (- r * dt)))
                (tracked_prices z S0 (nat (steps_of T)) vol)))"
  using assms
  by (simp add: price_warrant_once_def Let_def valuation_eq path_values_rows del: One_nat_def)

lemma price_warrant_once_same:
  assumes "2 \<le> steps_of T"
  shows "price_warrant_once z S0 T vol = price_warrant z S0 T vol"
  using assms by (simp add: price_warrant_value price_warrant_once_value)

lemma price_warrant_unassigned:
  assumes "steps_of T = 0 \<or> steps_of T = 1"
  shows "price_warrant z S0 T vol = Inl UnboundLocalError"
proof -
  have "rev [1..<nat (steps_of T)] = []" using assms by auto
  then show ?thesis using assms by (auto simp: price_warrant_def Let_def)
qed

lemma price_warrant_no_columns:
  "steps_of T = - 1 \<Longrightarrow> price_warrant z S0 T vol = Inl IndexError"
  "steps_of T < - 1 \<Longrightarrow> price_warrant z S0 T vol = Inl ValueError"
  by (simp_all add: price_warrant_def Let_def)

subsection \<open>Without volatility\<close>

lemma GBM_row_map: "GBM_row S0 drift vs dr n = map (gbm_val S0 drift vs dr) [0..<n + 1]"
proof (rule nth_equalityI)
  show "length (GBM_row S0 drift vs dr n) = length (map (gbm_val S0 drift vs dr) [0..<n + 1])"
    by (simp add: length_GBM_row)
next
  fix i assume "i < length (GBM_row S0 drift vs dr n)"
  then have "i \<le> n" by (simp add: length_GBM_row)
  then show "GBM_row S0 drift vs dr n ! i = map (gbm_val S0 drift vs dr) [0..<n + 1] ! i"
    using nth_map_upt[of i "n + 1" 0 "gbm_val S0 drift vs dr"] by (simp add: GBM_row_nth)
qed

lemma zero_vol_paths: "simulate_paths z S0 n 0 = replicate N (zero_vol_row S0 n)"
proof -
  have "gbm_val S0 (r * dt) 0 dr = (\<lambda>t. S0 * exp (r * dt * real t))" for dr
    by (rule ext) (rule gbm_val_zero_vol)
  then have "GBM_row S0 (r * dt) 0 dr n = zero_vol_row S0 n" for dr
    by (simp only: GBM_row_map zero_vol_row_def)
  then show ?thesis by (simp add: simulate_paths_def map_replicate_const)
qed

lemma stats_replicate:
  assumes "0 < m"
  shows "stats (replicate m v) = (v, 0)"
proof -
  have m: "mean (replicate m v) = v" using assms by (simp add: mean_def sum_list_replicate)
  have "map (\<lambda>x. \<bar>x - v\<bar> ^ 2) (replicate m v) = replicate m 0" by simp
  then have "std (replicate m v) = 0"
    using assms by (simp add: std_def m mean_def sum_list_replicate)
  then show ?thesis using m by (simp add: stats_def)
qed

lemma zero_vol_standard_error:
  assumes "2 \<le> steps_of T"
  shows "price_warrant z S0 T 0 =
         Inr (row_value (nat (steps_of T)) (exp (- r * dt))
                (tracked_row (nat (steps_of T)) (zero_vol_row S0 (nat (steps_of T)))), 0)"
  using assms
  by (simp add: price_warrant_value tracked_prices_rows zero_vol_paths stats_replicate N_pos)

subsection \<open>With a starting price that is not positive\<close>

lemma horner_zeros: "horner d (replicate m 0) = 0"
  by (induction m) simp_all

lemma tl_zero_row: "tl (zero_row n) = replicate n 0"
  by (simp add: zero_row_def)

lemma B18_row_below:
  assumes "\<forall>x \<in> set s. x < 18" "t \<le> n"
  shows "B18_row lk n s ! t = 0"
proof -
  have "\<forall>x \<in> set (slice (t + 1 - min 30 (t - lk + 1)) (t + 1) s). x < 18"
    using assms(1) set_slice_subset[of "t + 1 - min 30 (t - lk + 1)" "t + 1" s] by blast
  then have "B18_val lk s t = 0" unfolding B18_val_def by (rule count18_none)
  then show ?thesis using assms(2) by (simp add: B18_row_nth)
qed

lemma tracked_row_below:
  assumes "\<forall>x \<in> set s. x < 18"
  shows "tracked_row n s = s"
proof -
  have "\<forall>t \<in> set [0..<n - 1]. B18_row lockout n s ! t < 20"
  proof
    fix t assume "t \<in> set [0..<n - 1]"
    then have "t \<le> n" by simp
    then show "B18_row lockout n s ! t < 20" using assms by (simp add: B18_row_below)
  qed
  then have "redeem_cut (B18_row lockout n s) [0..<n - 1] (length s) = length s"
    by (rule redeem_cut_no_trigger)
  then show ?thesis by (simp add: tracked_row_def redeem_row_cut zero_from_length)
qed

lemma exercise_row_out_of_money:
  assumes "s ! t \<le> X" "t \<le> n"
  shows "exercise_row_step lk t s (zero_row n, zero_row n) = (zero_row n, zero_row n)"
proof (cases "t > lk")
  case False
  then show ?thesis by (simp add: exercise_row_step_def)
next
  case True
  have z: "zero_row n ! t \<noteq> 1"
    using assms(2) by (simp add: zero_row_nth)
  have ns: "\<not> X < s ! t" using assms(1) by simp
  show ?thesis
    using True z ns
    by (simp add: exercise_row_step_def exercise_row_def zero_row_update Let_def)
qed

lemma exercise_loop_out_of_money:
  assumes "\<forall>t \<in> set ts. s ! t \<le> X \<and> t \<le> n"
  shows "exercise_row_loop lk s ts (zero_row n, zero_row n) = (zero_row n, zero_row n)"
  using assms
proof (induction ts)
  case Nil
  then show ?case by (simp add: exercise_row_loop_def)
next
  case (Cons t ts)
  then have "exercise_row_step lk t s (zero_row n, zero_row n) = (zero_row n, zero_row n)"
    by (simp add: exercise_row_out_of_money)
  then show ?case using Cons by (simp add: exercise_row_loop_def)
qed

lemma row_value_out_of_money:
  assumes "2 \<le> n" "length s = n + 1" "\<forall>x \<in> set s. x \<le> 0"
  shows "row_value n d s = 0"
proof -
  have le: "s ! t \<le> X" if "t \<le> n" for t
  proof -
    have "s ! t \<in> set s" using that assms(2) by simp
    then have "s ! t \<le> 0" using assms(3) by blast
    then show ?thesis by (simp add: X_def)
  qed
  have i: "init_row n s = (zero_row n, zero_row n)"
    using le[of n] by (simp add: init_row_zero_row zero_row_update max_def)
  have "\<forall>t \<in> set (rev [1..<n]). s ! t \<le> X \<and> t \<le> n" using le by simp
  then have "exercise_row_loop lockout s (rev [1..<n]) (zero_row n, zero_row n) =
      (zero_row n, zero_row n)"
    by (rule exercise_loop_out_of_money)
  then show ?thesis
    using assms(1) i
    by (simp add: row_value_def tl_zero_row DCF_row_horner horner_zeros del: One_nat_def)
qed

lemma nonpositive_paths:
  assumes "S0 \<le> 0" "i < N"
  shows "\<forall>x \<in> set (simulate_paths z S0 n vol ! i). x \<le> 0"
proof
  fix x assume "x \<in> set (simulate_paths z S0 n vol ! i)"
  then obtain t where t: "t < length (simulate_paths z S0 n vol ! i)"
      "x = simulate_paths z S0 n vol ! i ! t"
    by (auto simp: in_set_conv_nth)
  have "t \<le> n" using t(1) assms(2) by (simp add: simulate_paths_nth length_GBM_row)
  then show "x \<le> 0"
    using t(2) assms by (simp add: simulate_paths_nth GBM_row_nth gbm_val_nonpos)
qed

lemma nonpositive_values:
  assumes "S0 \<le> 0" "2 \<le> n"
  shows "map (row_value n d) (tracked_prices z S0 n vol) = replicate N 0"
proof (rule nth_equalityI)
  show "length (map (row_value n d) (tracked_prices z S0 n vol)) = length (replicate N (0::real))"
    by (simp add: length_tracked_prices)
next
  fix i assume "i < length (map (row_value n d) (tracked_prices z S0 n vol))"
  then have i: "i < N" by (simp add: length_tracked_prices)
  let ?s = "simulate_paths z S0 n vol ! i"
  have np: "\<forall>x \<in> set ?s. x \<le> 0" using assms(1) i by (rule nonpositive_paths)
  have "\<forall>x \<in> set ?s. x < 18"
  proof
    fix x assume "x \<in> set ?s"
    then have "x \<le> 0" using np by blast
    then show "x < 18" by simp
  qed
  then have "tracked_row n ?s = ?s" by (rule tracked_row_below)
  moreover have "length ?s = n + 1" using i by (simp add: simulate_paths_nth length_GBM_row)
  ultimately have "row_value n d (tracked_prices z S0 n vol ! i) = 0"
    using i assms(2) np by (simp add: tracked_prices_nth row_value_out_of_money)
  then show "map (row_value n d) (tracked_prices z S0 n vol) ! i = replicate N 0 ! i"
    using i by (simp add: length_tracked_prices)
qed

lemma steps_of_nonpositive: "T \<le> 0 \<Longrightarrow> steps_of T \<le> 0"
  by (auto simp: steps_of_def py_int_def dt_def ceiling_le_iff)

text \<open>
  Claim C9. The variant that values once after the backward loop and the source, which
  values inside every iteration, return the same pair whenever the loop runs at least once
  (lemma \<open>price_warrant_once_same\<close>, two steps or more). For \<open>T = 0.005\<close> there is one
  step, the loop of the source runs no iteration, \<^verbatim>\<open>w_prc\<close> and \<^verbatim>\<open>se\<close> are never
  assigned and the source raises UnboundLocalError, where the variant returns a pair.
\<close>

theorem valuation_inside_loop_small_T:
  "price_warrant z 14 (1 / 200) (3 / 10) = Inl UnboundLocalError \<and>
   price_warrant_once z 14 (1 / 200) (3 / 10) =
     Inr (stats (map (row_value 1 (exp (- r * dt))) (tracked_prices z 14 1 (3 / 10))))"
proof -
  have s: "steps_of (1 / 200) = 1" by (simp add: steps_of_def py_int_def dt_def)
  show ?thesis
    using price_warrant_unassigned[of "1 / 200" z 14 "3 / 10"]
      price_warrant_once_value[of "1 / 200" z 14 "3 / 10"] s by simp
qed

text \<open>
  Claim C8. Without volatility all simulated paths are the path
  \<open>S(t) = S0\<cdot>exp(r\<cdot>dt\<cdot>t)\<close> (lemma \<open>zero_vol_paths\<close>) and, with two steps or more,
  the standard error returned is 0 (lemma \<open>zero_vol_standard_error\<close>). For \<open>T = 0.005\<close>
  the paths are identical as well, but the call raises UnboundLocalError and returns no
  standard error.
\<close>

theorem zero_vol_small_T:
  "price_warrant z 14 (1 / 200) 0 = Inl UnboundLocalError \<and>
   simulate_paths z 14 (nat (steps_of (1 / 200))) 0 = replicate N (zero_vol_row 14 1)"
proof -
  have s: "steps_of (1 / 200) = 1" by (simp add: steps_of_def py_int_def dt_def)
  show ?thesis
    using price_warrant_unassigned[of "1 / 200" z 14 0] s by (simp add: zero_vol_paths)
qed

text \<open>
  Claim C6, as the specification words it: a validation error for \<open>S0 \<le> 0\<close>, and no
  result. The source has no validation: with \<open>S0 = -1\<close>, \<open>T = 2\<close> and volatility
  \<open>0.3\<close> it simulates, and returns the pair \<open>(0, 0)\<close>.
\<close>

theorem no_validation_counterexample:
  "price_warrant no_shock (- 1) 2 (3 / 10) = Inr (0, 0)"
proof -
  have s: "steps_of 2 = 504" by (simp add: steps_of_def py_int_def dt_def)
  then have "price_warrant no_shock (- 1) 2 (3 / 10) =
      Inr (stats (map (row_value 504 (exp (- r * dt))) (tracked_prices no_shock (- 1) 504 (3 / 10))))"
    using price_warrant_value[of 2 no_shock "- 1" "3 / 10"] by simp
  then show ?thesis by (simp add: nonpositive_values stats_replicate N_pos)
qed

text \<open>
  Claim C6, amended. \<^verbatim>\<open>price_warrant\<close> validates nothing. With \<open>S0 \<le> 0\<close> and two steps
  or more it returns the pair \<open>(0, 0)\<close>; with two steps or more it returns a pair for any
  \<open>S0\<close> and any volatility, negative ones too; with \<open>T \<le> 0\<close> it returns no pair: it
  ends in an error.
\<close>

theorem no_validation:
  "(S0 \<le> 0 \<and> 2 \<le> steps_of T \<longrightarrow> price_warrant z S0 T vol = Inr (0, 0)) \<and>
   (2 \<le> steps_of T \<longrightarrow> (\<exists>res. price_warrant z S0 T vol = Inr res)) \<and>
   (T \<le> 0 \<longrightarrow> (\<exists>e. price_warrant z S0 T vol = Inl e))"
proof (intro conjI impI)
  assume a: "S0 \<le> 0 \<and> 2 \<le> steps_of T"
  then have "2 \<le> nat (steps_of T)" by linarith
  then show "price_warrant z S0 T vol = Inr (0, 0)"
    using a by (simp add: price_warrant_value nonpositive_values stats_replicate N_pos)
next
  assume "2 \<le> steps_of T"
  then show "\<exists>res. price_warrant z S0 T vol = Inr res"
    by (simp add: price_warrant_value)
next
  assume "T \<le> 0"
  then have "steps_of T \<le> 0" by (rule steps_of_nonpositive)
  then consider "steps_of T = 0" | "steps_of T = - 1" | "steps_of T < - 1" by linarith
  then show "\<exists>e. price_warrant z S0 T vol = Inl e"
    by cases (simp_all add: price_warrant_unassigned price_warrant_no_columns)
qed

theorem no_validation_witness:
  "((- 1::real) \<le> 0 \<and> 2 \<le> steps_of 2 \<and> price_warrant no_shock (- 1) 2 (3 / 10) = Inr (0, 0)) \<and>
   (\<exists>res. price_warrant no_shock 14 2 (- 3 / 10) = Inr res) \<and>
   ((0::real) \<le> 0 \<and> (\<exists>e. price_warrant no_shock 14 0 (3 / 10) = Inl e))"
proof -
  have s: "steps_of 2 = 504" by (simp add: steps_of_def py_int_def dt_def)
  show ?thesis
    using no_validation[of "- 1" 2 no_shock "3 / 10"] no_validation[of 14 2 no_shock "- 3 / 10"]
      no_validation[of 14 0 no_shock "3 / 10"] s
    by simp
qed

end
